theory Spec2Isabelle
  imports Main "HOL-Library.Sublist"
begin

section \<open>The lifecycle coordinator of lullaby.go\<close>

text \<open>
  The Go package runs every service in a goroutine of its own, so the embedding is an
  interleaving semantics: a \<open>world\<close> holds the fields of the \<open>Group\<close> struct, the program
  counter of every goroutine the group has launched (or that is inside \<open>Stop()\<close>), the
  local variables of \<open>stopAll\<close>, and the calls made so far on the collaborators
  (the services and the context package). A schedule is a list of events; \<open>step\<close> is the
  effect of one event, \<open>None\<close> when the event is not enabled (the goroutine is blocked,
  or the body of a service has not returned).

  Granularity. A critical section of \<open>lg.mu\<close> is one step. A loop that only launches
  goroutines (in \<open>Start\<close> and in \<open>stopAll\<close>) is one step: a goroutine that has been
  launched and not yet scheduled has written nothing. What follows \<open>stopWg.Wait()\<close> up to
  the return of the goroutine (the deferred cancel of \<open>stopCtx\<close>, the \<open>sync.Once\<close> marking
  itself done, \<open>wg.Done()\<close>) is one step.

  The services are the environment: the body of \<open>Start\<close> or \<open>Stop\<close> of a service returns
  when the schedule says so, with the outcome the schedule gives, or never. A body that
  panics is not modelled. \<open>conc.WaitGroup\<close> and the packages \<open>context\<close>, \<open>sync\<close> and
  \<open>os/signal\<close> are not part of the repository; they are modelled by their documented
  behaviour.
\<close>

subsection \<open>Data\<close>

type_synonym service = nat
  \<comment> \<open>an opaque handle: the coordinator only stores services and calls their two methods\<close>

type_synonym error = string

type_synonym tid = nat
  \<comment> \<open>a goroutine is named by its index in \<open>tasks\<close>\<close>

datatype once = NotRun | Running | Finished
  \<comment> \<open>\<open>sync.Once\<close>: nobody has entered \<open>Do\<close>; the function is running (its mutex is held);
      the function has returned (the done flag is set)\<close>

datatype ctxstate = Active | DeadlineExceeded | Canceled
  \<comment> \<open>the context made by \<open>context.WithTimeout\<close> in \<open>stopAll\<close>\<close>

datatype caller = Task | External
  \<comment> \<open>who is executing \<open>Stop()\<close>: a goroutine launched by \<open>lg.wg.Go\<close> (a start closure whose
      service failed, or \<open>handleSignals\<close>), or code outside the group\<close>

datatype pc =
    HandleSignals          \<comment> \<open>\<open>handleSignals\<close>, at the \<open>select\<close> (lines 98-103)\<close>
  | StartTrack service     \<comment> \<open>start closure, before \<open>lg.mu.Lock()\<close> (line 67)\<close>
  | StartCall service      \<comment> \<open>start closure, before \<open>srvc.Start(lg.ctx)\<close> (line 71)\<close>
  | InStart service        \<comment> \<open>inside \<open>srvc.Start(lg.ctx)\<close>\<close>
  | OnceDo caller          \<comment> \<open>\<open>Stop()\<close>, at \<open>lg.stopOnce.Do\<close> (line 87)\<close>
  | Cancel caller          \<comment> \<open>inside the once, before \<open>lg.cancel()\<close> (line 88)\<close>
  | StopAllEnter caller    \<comment> \<open>\<open>stopAll\<close>, before \<open>context.WithTimeout\<close> (line 108)\<close>
  | StopAllSnapshot caller \<comment> \<open>\<open>stopAll\<close>, before \<open>lg.mu.Lock()\<close> (line 115)\<close>
  | StopAllLaunch caller   \<comment> \<open>\<open>stopAll\<close>, before the \<open>for\<close> loop (line 120)\<close>
  | StopAllWait caller     \<comment> \<open>\<open>stopAll\<close>, at \<open>stopWg.Wait()\<close> (line 127)\<close>
  | StopCall service       \<comment> \<open>stop closure, before \<open>srvc.Stop(stopCtx)\<close> (line 123)\<close>
  | InStop service         \<comment> \<open>inside \<open>srvc.Stop(stopCtx)\<close>\<close>
  | Done                   \<comment> \<open>the goroutine has returned\<close>

datatype action =
    CtxCancel              \<comment> \<open>\<open>lg.cancel()\<close>\<close>
  | WithTimeout int        \<comment> \<open>\<open>context.WithTimeout(context.Background(), lg.timeout)\<close>\<close>
  | SvcStart service       \<comment> \<open>\<open>srvc.Start(lg.ctx)\<close>\<close>
  | SvcStop service        \<comment> \<open>\<open>srvc.Stop(stopCtx)\<close>\<close>

text \<open>
  The struct \<open>Group\<close>. \<open>wg\<close> is the counter of the \<open>conc.WaitGroup\<close>; \<open>ctxDone\<close> says
  whether \<open>lg.ctx\<close> is cancelled, and \<open>lg.cancel\<close> is the step that sets it; \<open>lg.mu\<close> is
  only held inside a single step and has no field.
\<close>

record Group =
  wg :: nat
  ctxDone :: bool
  stopOnce :: once
  services :: "service list"
  startedServices :: "service list"
  timeout :: int

text \<open>
  The rest of the world. \<open>stopCtx\<close>, \<open>stopWg\<close> and \<open>servicesToStop\<close> are the local variables
  of \<open>stopAll\<close>. \<open>calls\<close> is a history: the calls made on the services and on the context
  package, in order; no step reads it. \<open>panicked\<close> is set when a wait-group counter
  would become negative, where \<open>sync.WaitGroup\<close> panics.
\<close>

record world = Group +
  tasks :: "pc list"
  stopCtx :: "ctxstate option"
  stopWg :: nat
  servicesToStop :: "service list"
  calls :: "action list"
  panicked :: bool

datatype event =
    CallAdd service              \<comment> \<open>\<open>lg.Add(service)\<close>\<close>
  | CallStart                    \<comment> \<open>\<open>lg.Start()\<close>\<close>
  | CallStop                     \<comment> \<open>a goroutine outside the group enters \<open>lg.Stop()\<close>\<close>
  | Run tid                      \<comment> \<open>the scheduler runs the next step of a goroutine\<close>
  | StartReturns tid "error option"  \<comment> \<open>the body of \<open>srvc.Start\<close> returns\<close>
  | StopReturns tid "error option"   \<comment> \<open>the body of \<open>srvc.Stop\<close> returns\<close>
  | Signal tid                   \<comment> \<open>SIGINT or SIGTERM arrives and the \<open>select\<close> takes it\<close>
  | Deadline                     \<comment> \<open>the timeout of \<open>stopCtx\<close> elapses\<close>

subsection \<open>Operations\<close>

definition New :: "int \<Rightarrow> world" where
  "New d = \<lparr>wg = 0, ctxDone = False, stopOnce = NotRun, services = [],
            startedServices = [], timeout = d,
            tasks = [], stopCtx = None, stopWg = 0, servicesToStop = [],
            calls = [], panicked = False\<rparr>"

definition Add :: "service \<Rightarrow> world \<Rightarrow> world" where
  "Add svc w = w\<lparr>services := services w @ [svc]\<rparr>"

text \<open>
  \<open>Start\<close> launches \<open>handleSignals\<close> and one closure for each registered service, each
  through \<open>lg.wg.Go\<close>, and returns \<open>nil\<close>.
\<close>

definition Start :: "world \<Rightarrow> world \<times> error option" where
  "Start w =
     (w\<lparr>wg := wg w + 1 + length (services w),
        tasks := tasks w @ HandleSignals # map StartTrack (services w)\<rparr>,
      None)"

text \<open>\<open>Wait\<close> is \<open>lg.wg.Wait()\<close>: it returns (nothing) when the counter is zero and blocks otherwise.\<close>

definition Wait :: "world \<Rightarrow> unit option" where
  "Wait w = (if wg w = 0 then Some () else None)"

text \<open>The end of a goroutine launched by \<open>lg.wg.Go\<close>: the deferred \<open>wg.Done()\<close>.\<close>

definition wg_done :: "tid \<Rightarrow> world \<Rightarrow> world" where
  "wg_done t w =
     (if wg w = 0 then w\<lparr>tasks := (tasks w)[t := Done], panicked := True\<rparr>
      else w\<lparr>tasks := (tasks w)[t := Done], wg := wg w - 1\<rparr>)"

text \<open>The end of a goroutine launched by \<open>stopWg.Go\<close>.\<close>

definition stopWg_done :: "tid \<Rightarrow> world \<Rightarrow> world" where
  "stopWg_done t w =
     (if stopWg w = 0 then w\<lparr>tasks := (tasks w)[t := Done], panicked := True\<rparr>
      else w\<lparr>tasks := (tasks w)[t := Done], stopWg := stopWg w - 1\<rparr>)"

text \<open>\<open>Stop()\<close> returns to its caller; a goroutine of the group then ends.\<close>

fun Stop_returns :: "caller \<Rightarrow> tid \<Rightarrow> world \<Rightarrow> world" where
  "Stop_returns Task t w = wg_done t w"
| "Stop_returns External t w = w\<lparr>tasks := (tasks w)[t := Done]\<rparr>"

definition release :: "ctxstate option \<Rightarrow> ctxstate option" where
  "release c = (case c of Some Active \<Rightarrow> Some Canceled | _ \<Rightarrow> c)"

text \<open>
  \<open>handleSignals\<close> (lines 94-104) at its \<open>select\<close>, the branch of \<open>lg.ctx.Done()\<close>: the
  goroutine returns. It is blocked while the context is not cancelled; the branch of
  \<open>sigChan\<close> is the event \<open>Signal\<close> below.
\<close>

fun handleSignals :: "tid \<Rightarrow> world \<Rightarrow> world option" where
  "handleSignals t w = (if ctxDone w then Some (wg_done t w) else None)"

text \<open>
  The closure that \<open>Start\<close> launches for a service (lines 65-74): under \<open>lg.mu\<close> it appends
  the service to \<open>startedServices\<close>, then it calls \<open>srvc.Start(lg.ctx)\<close>. What follows the
  return of that call is in \<open>step\<close> below.
\<close>

fun start_closure :: "tid \<Rightarrow> pc \<Rightarrow> world \<Rightarrow> world option" where
  "start_closure t (StartTrack svc) w =
     Some (w\<lparr>startedServices := startedServices w @ [svc],
             tasks := (tasks w)[t := StartCall svc]\<rparr>)"
| "start_closure t (StartCall svc) w =
     Some (w\<lparr>calls := calls w @ [SvcStart svc],
             tasks := (tasks w)[t := InStart svc]\<rparr>)"
| "start_closure t p w = None"

text \<open>
  \<open>Stop\<close> (lines 86-91). At \<open>lg.stopOnce.Do\<close> the first goroutine enters the function, a
  goroutine that arrives while the function is running waits for it, and one that
  arrives later returns at once. Inside, \<open>lg.cancel()\<close> comes first, then \<open>lg.stopAll()\<close>.
\<close>

fun Stop :: "tid \<Rightarrow> pc \<Rightarrow> world \<Rightarrow> world option" where
  "Stop t (OnceDo c) w =
     (case stopOnce w of
        NotRun \<Rightarrow> Some (w\<lparr>stopOnce := Running, tasks := (tasks w)[t := Cancel c]\<rparr>)
      | Running \<Rightarrow> None
      | Finished \<Rightarrow> Some (Stop_returns c t w))"
| "Stop t (Cancel c) w =
     Some (w\<lparr>ctxDone := True, calls := calls w @ [CtxCancel],
             tasks := (tasks w)[t := StopAllEnter c]\<rparr>)"
| "Stop t p w = None"

text \<open>
  \<open>stopAll\<close> (lines 107-128): \<open>context.WithTimeout\<close> (a timeout that is not positive gives
  a context whose deadline has passed) and a new wait group; the snapshot of
  \<open>startedServices\<close> under \<open>lg.mu\<close>; one stop closure launched for every service of the
  snapshot; \<open>stopWg.Wait()\<close>, which blocks while the counter of \<open>stopWg\<close> is not zero. Nothing
  here reads \<open>stopCtx\<close>: it is only handed to the services.
\<close>

fun stopAll :: "tid \<Rightarrow> pc \<Rightarrow> world \<Rightarrow> world option" where
  "stopAll t (StopAllEnter c) w =
     Some (w\<lparr>stopCtx := Some (if timeout w \<le> 0 then DeadlineExceeded else Active),
             stopWg := 0,
             calls := calls w @ [WithTimeout (timeout w)],
             tasks := (tasks w)[t := StopAllSnapshot c]\<rparr>)"
| "stopAll t (StopAllSnapshot c) w =
     Some (w\<lparr>servicesToStop := startedServices w,
             tasks := (tasks w)[t := StopAllLaunch c]\<rparr>)"
| "stopAll t (StopAllLaunch c) w =
     Some (w\<lparr>stopWg := stopWg w + length (servicesToStop w),
             tasks := (tasks w)[t := StopAllWait c] @ map StopCall (servicesToStop w)\<rparr>)"
| "stopAll t (StopAllWait c) w =
     (if stopWg w = 0
      then Some (Stop_returns c t (w\<lparr>stopCtx := release (stopCtx w), stopOnce := Finished\<rparr>))
      else None)"
| "stopAll t p w = None"

text \<open>The closure that \<open>stopAll\<close> launches for a service (lines 122-124).\<close>

fun stop_closure :: "tid \<Rightarrow> pc \<Rightarrow> world \<Rightarrow> world option" where
  "stop_closure t (StopCall svc) w =
     Some (w\<lparr>calls := calls w @ [SvcStop svc],
             tasks := (tasks w)[t := InStop svc]\<rparr>)"
| "stop_closure t p w = None"

text \<open>
  The next step of goroutine \<open>t\<close>, which is at program counter \<open>p\<close>. A goroutine inside the
  body of a service takes no step of its own.
\<close>

definition run_task :: "tid \<Rightarrow> pc \<Rightarrow> world \<Rightarrow> world option" where
  "run_task t p w =
     (case p of
        HandleSignals \<Rightarrow> handleSignals t w
      | StartTrack svc \<Rightarrow> start_closure t p w
      | StartCall svc \<Rightarrow> start_closure t p w
      | InStart svc \<Rightarrow> None
      | OnceDo c \<Rightarrow> Stop t p w
      | Cancel c \<Rightarrow> Stop t p w
      | StopAllEnter c \<Rightarrow> stopAll t p w
      | StopAllSnapshot c \<Rightarrow> stopAll t p w
      | StopAllLaunch c \<Rightarrow> stopAll t p w
      | StopAllWait c \<Rightarrow> stopAll t p w
      | StopCall svc \<Rightarrow> stop_closure t p w
      | InStop svc \<Rightarrow> None
      | Done \<Rightarrow> None)"

text \<open>
  One event. A service body returns only where its goroutine is inside it. When
  \<open>srvc.Start\<close> returns \<open>nil\<close> the closure ends; when it returns an error the closure enters
  \<open>Stop()\<close> (lines 71-73). The result of \<open>srvc.Stop\<close> is assigned to \<open>_\<close> and the closure
  ends (line 123). A signal sends \<open>handleSignals\<close> into \<open>Stop()\<close> (lines 101-102). A caller
  of \<open>Stop()\<close> from outside the group is a goroutine of its own.
\<close>

fun step :: "world \<Rightarrow> event \<Rightarrow> world option" where
  "step w (CallAdd svc) = Some (Add svc w)"
| "step w CallStart = Some (fst (Start w))"
| "step w CallStop = Some (w\<lparr>tasks := tasks w @ [OnceDo External]\<rparr>)"
| "step w (Run t) = (if t < length (tasks w) then run_task t (tasks w ! t) w else None)"
| "step w (StartReturns t r) =
     (if t < length (tasks w) then
        (case tasks w ! t of
           InStart svc \<Rightarrow>
             (case r of
                None \<Rightarrow> Some (wg_done t w)
              | Some err \<Rightarrow> Some (w\<lparr>tasks := (tasks w)[t := OnceDo Task]\<rparr>))
         | _ \<Rightarrow> None)
      else None)"
| "step w (StopReturns t r) =
     (if t < length (tasks w) then
        (case tasks w ! t of
           InStop svc \<Rightarrow> Some (stopWg_done t w)
         | _ \<Rightarrow> None)
      else None)"
| "step w (Signal t) =
     (if t < length (tasks w) then
        (case tasks w ! t of
           HandleSignals \<Rightarrow> Some (w\<lparr>tasks := (tasks w)[t := OnceDo Task]\<rparr>)
         | _ \<Rightarrow> None)
      else None)"
| "step w Deadline =
     (case stopCtx w of
        Some Active \<Rightarrow> Some (w\<lparr>stopCtx := Some DeadlineExceeded\<rparr>)
      | _ \<Rightarrow> None)"

fun run :: "world \<Rightarrow> event list \<Rightarrow> world option" where
  "run w [] = Some w"
| "run w (e # es) = (case step w e of None \<Rightarrow> None | Some w' \<Rightarrow> run w' es)"

section \<open>Predicates on schedules and worlds\<close>

subsection \<open>Schedules\<close>

text \<open>
  What a schedule says about the services and the callers: which events enter \<open>Stop()\<close>
  (a caller outside the group, a start body that returns an error, a signal), which
  are the return of the stop body that goroutine \<open>t\<close> is in, and which are steps of the
  program itself or returns of service bodies (as opposed to calls from outside, signals
  and the clock).
\<close>

fun invokes_Stop :: "event \<Rightarrow> bool" where
  "invokes_Stop CallStop = True"
| "invokes_Stop (StartReturns t (Some err)) = True"
| "invokes_Stop (Signal t) = True"
| "invokes_Stop e = False"



text \<open>
  The services a schedule registers, in order; a schedule with the outcomes of the stop
  bodies replaced by \<open>nil\<close>; a schedule with every start error replaced by one fixed
  error.
\<close>

definition registered :: "event list \<Rightarrow> service list" where
  "registered es = concat (map (\<lambda>e. case e of CallAdd svc \<Rightarrow> [svc] | _ \<Rightarrow> []) es)"

fun forget_stop_outcome :: "event \<Rightarrow> event" where
  "forget_stop_outcome (StopReturns t r) = StopReturns t None"
| "forget_stop_outcome e = e"

fun forget_start_error :: "event \<Rightarrow> event" where
  "forget_start_error (StartReturns t (Some err)) = StartReturns t (Some [])"
| "forget_start_error e = e"

subsection \<open>Counting goroutines\<close>

text \<open>
  \<open>cnt P ts\<close> is the number of goroutines of \<open>ts\<close> whose program counter satisfies \<open>P\<close>.
  \<open>in_wg\<close>: a goroutine launched by \<open>lg.wg.Go\<close> that has not returned.
  \<open>stop_task\<close>: a goroutine launched by \<open>stopWg.Go\<close> that has not returned.
  \<open>inside_Stop\<close>: a goroutine that is executing \<open>Stop()\<close>.
  \<open>phase\<close> numbers the program counters inside the function given to \<open>stopOnce.Do\<close>,
  in the order of the code; \<open>in_body\<close> is any of them.
\<close>

definition cnt :: "('a \<Rightarrow> bool) \<Rightarrow> 'a list \<Rightarrow> nat" where
  "cnt P xs = length (filter P xs)"

fun in_wg :: "pc \<Rightarrow> bool" where
  "in_wg HandleSignals = True"
| "in_wg (StartTrack svc) = True"
| "in_wg (StartCall svc) = True"
| "in_wg (InStart svc) = True"
| "in_wg (OnceDo c) = (c = Task)"
| "in_wg (Cancel c) = (c = Task)"
| "in_wg (StopAllEnter c) = (c = Task)"
| "in_wg (StopAllSnapshot c) = (c = Task)"
| "in_wg (StopAllLaunch c) = (c = Task)"
| "in_wg (StopAllWait c) = (c = Task)"
| "in_wg (StopCall svc) = False"
| "in_wg (InStop svc) = False"
| "in_wg Done = False"

fun stop_task :: "pc \<Rightarrow> bool" where
  "stop_task (StopCall svc) = True"
| "stop_task (InStop svc) = True"
| "stop_task p = False"

fun is_StartTrack :: "pc \<Rightarrow> bool" where
  "is_StartTrack (StartTrack svc) = True"
| "is_StartTrack p = False"

fun inside_Stop :: "pc \<Rightarrow> bool" where
  "inside_Stop (OnceDo c) = True"
| "inside_Stop (Cancel c) = True"
| "inside_Stop (StopAllEnter c) = True"
| "inside_Stop (StopAllSnapshot c) = True"
| "inside_Stop (StopAllLaunch c) = True"
| "inside_Stop (StopAllWait c) = True"
| "inside_Stop p = False"

fun phase :: "pc \<Rightarrow> nat" where
  "phase (Cancel c) = 1"
| "phase (StopAllEnter c) = 2"
| "phase (StopAllSnapshot c) = 3"
| "phase (StopAllLaunch c) = 4"
| "phase (StopAllWait c) = 5"
| "phase p = 0"

definition in_body :: "pc \<Rightarrow> bool" where
  "in_body p = (0 < phase p)"

fun is_WithTimeout :: "action \<Rightarrow> bool" where
  "is_WithTimeout (WithTimeout d) = True"
| "is_WithTimeout a = False"

text \<open>
  How far the stop sequence has come: 0 when nobody has entered the once, 6 when the
  once is done, and in between the phase of the one goroutine that is inside it
  (1 before \<open>lg.cancel()\<close>, 2 before \<open>context.WithTimeout\<close>, 3 before the snapshot of
  \<open>startedServices\<close>, 4 before the loop that launches the stop closures, 5 at
  \<open>stopWg.Wait()\<close>).
\<close>

definition progress :: "world \<Rightarrow> nat" where
  "progress w =
     (case stopOnce w of
        NotRun \<Rightarrow> 0
      | Running \<Rightarrow> sum_list (map phase (tasks w))
      | Finished \<Rightarrow> 6)"

text \<open>
  \<open>stop_invoked\<close>: some goroutine has entered \<open>Stop()\<close>.
  \<open>started_before_cancel cs x\<close>: how many times \<open>Start\<close> of service \<open>x\<close> was called before
  \<open>lg.cancel()\<close>, in the history \<open>cs\<close>.
  \<open>tracked w x\<close>: how many start closures of service \<open>x\<close> have been launched (those that
  have appended \<open>x\<close> to \<open>startedServices\<close> and those that are about to).
\<close>

definition stop_invoked :: "world \<Rightarrow> bool" where
  "stop_invoked w \<longleftrightarrow> stopOnce w \<noteq> NotRun \<or> (\<exists>p \<in> set (tasks w). inside_Stop p)"

definition started_before_cancel :: "action list \<Rightarrow> service \<Rightarrow> nat" where
  "started_before_cancel cs x = count_list (takeWhile (\<lambda>a. a \<noteq> CtxCancel) cs) (SvcStart x)"


subsection \<open>Invariants\<close>

text \<open>
  \<open>guard_inv\<close>: exactly one goroutine is inside the once while it is running, none
  otherwise.
  \<open>counters_inv\<close>: no wait-group counter has gone negative, each counter is the number of
  goroutines of its group that have not returned, and stop closures exist only while the
  stop sequence is at \<open>stopWg.Wait()\<close>.
  \<open>calls_inv\<close>: \<open>lg.cancel()\<close> and \<open>context.WithTimeout\<close> have been called once when the
  stop sequence is past them and not at all before; \<open>lg.ctx\<close> is cancelled from then on.
  \<open>stops_inv\<close>: once the stop closures are launched, each service has one closure or
  one call of \<open>Stop\<close> for each of its occurrences in \<open>servicesToStop\<close>, and none before.
  \<open>starts_inv\<close>: each occurrence of a service in \<open>startedServices\<close> is a start closure
  about to call \<open>Start\<close>, or a call of \<open>Start\<close> made.
  \<open>snapshot_inv\<close>: \<open>servicesToStop\<close> is a prefix of \<open>startedServices\<close>, and holds every
  service whose \<open>Start\<close> was called before \<open>lg.cancel()\<close>.
\<close>

definition guard_inv :: "world \<Rightarrow> bool" where
  "guard_inv w \<longleftrightarrow> cnt in_body (tasks w) = (if stopOnce w = Running then 1 else 0)"

definition counters_inv :: "world \<Rightarrow> bool" where
  "counters_inv w \<longleftrightarrow>
     \<not> panicked w
   \<and> wg w = cnt in_wg (tasks w)
   \<and> stopWg w = cnt stop_task (tasks w)
   \<and> (progress w \<noteq> 5 \<longrightarrow> cnt stop_task (tasks w) = 0)"

definition calls_inv :: "world \<Rightarrow> bool" where
  "calls_inv w \<longleftrightarrow>
     count_list (calls w) CtxCancel = (if 2 \<le> progress w then 1 else 0)
   \<and> cnt is_WithTimeout (calls w) = (if 3 \<le> progress w then 1 else 0)
   \<and> ctxDone w = (2 \<le> progress w)"

definition stops_inv :: "world \<Rightarrow> bool" where
  "stops_inv w \<longleftrightarrow>
     (\<forall>x. count_list (calls w) (SvcStop x) + cnt (\<lambda>p. p = StopCall x) (tasks w)
          = (if 5 \<le> progress w then count_list (servicesToStop w) x else 0))"

definition starts_inv :: "world \<Rightarrow> bool" where
  "starts_inv w \<longleftrightarrow>
     (\<forall>x. count_list (calls w) (SvcStart x) + cnt (\<lambda>p. p = StartCall x) (tasks w)
          = count_list (startedServices w) x)"

definition snapshot_inv :: "world \<Rightarrow> bool" where
  "snapshot_inv w \<longleftrightarrow>
     prefix (servicesToStop w) (startedServices w)
   \<and> (4 \<le> progress w \<longrightarrow>
        (\<forall>x. started_before_cancel (calls w) x \<le> count_list (servicesToStop w) x))"

definition inv :: "world \<Rightarrow> bool" where
  "inv w \<longleftrightarrow> guard_inv w \<and> counters_inv w \<and> calls_inv w \<and> stops_inv w
            \<and> starts_inv w \<and> snapshot_inv w"

subsection \<open>Progress\<close>


fun rank :: "pc \<Rightarrow> nat" where
  "rank HandleSignals = 1"
| "rank (StartTrack svc) = 9"
| "rank (StartCall svc) = 8"
| "rank (InStart svc) = 7"
| "rank (OnceDo c) = 6"
| "rank (Cancel c) = 5"
| "rank (StopAllEnter c) = 4"
| "rank (StopAllSnapshot c) = 3"
| "rank (StopAllLaunch c) = 2"
| "rank (StopAllWait c) = 1"
| "rank (StopCall svc) = 2"
| "rank (InStop svc) = 1"
| "rank Done = 0"



subsection \<open>Schedules used as examples\<close>

text \<open>
  In each, goroutine 0 is \<open>handleSignals\<close> and goroutine \<open>i + 1\<close> is the start closure of
  the \<open>i\<close>-th registered service; the goroutines after them are callers of \<open>Stop()\<close> from
  outside and stop closures, in the order of their creation.

  \<open>one_service_fails\<close>: the only service fails its start; its closure runs the stop
  sequence, the service's stop returns, every goroutine ends.
  \<open>one_service_stopped\<close>: the only service starts, a caller outside stops the group, the
  start body returns \<open>nil\<close>, every goroutine ends.
  \<open>stop_never_returns\<close>: as \<open>one_service_fails\<close> up to the call of the service's \<open>Stop\<close>,
  which does not return.
  \<open>natural_completion\<close>: the only service starts and its start body returns \<open>nil\<close>.
  \<open>late_starter\<close>: of three services the first fails and is stopped before the closures
  of the other two are scheduled; then both start, and the third fails.
  \<open>two_services_stopped\<close>: three services are registered, two have started when a
  caller outside stops the group; the closure of the third has not been scheduled.
  \<open>three_stops\<close>: \<open>Stop()\<close> is entered by two callers outside and by \<open>handleSignals\<close>.
\<close>

definition one_service_fails :: "error \<Rightarrow> event list" where
  "one_service_fails err =
     [CallAdd 0, CallStart, Run 1, Run 1, StartReturns 1 (Some err),
      Run 1, Run 1, Run 1, Run 1, Run 1, Run 2, StopReturns 2 None, Run 1, Run 0]"

definition one_service_stopped :: "event list" where
  "one_service_stopped =
     [CallAdd 0, CallStart, Run 1, Run 1, CallStop,
      Run 2, Run 2, Run 2, Run 2, Run 2, Run 3, StopReturns 3 None, Run 2,
      StartReturns 1 None, Run 0]"


definition natural_completion :: "event list" where
  "natural_completion = [CallAdd 0, CallStart, Run 1, Run 1, StartReturns 1 None]"

definition late_starter :: "event list" where
  "late_starter =
     [CallAdd 0, CallAdd 1, CallAdd 2, CallStart,
      Run 1, Run 1, StartReturns 1 (Some ''a''),
      Run 1, Run 1, Run 1, Run 1, Run 1, Run 4, StopReturns 4 None, Run 1,
      Run 2, Run 2, Run 3, Run 3, StartReturns 3 (Some ''c''), Run 3]"


definition three_stops :: "event list" where
  "three_stops =
     [CallAdd 0, CallStart, Run 1, Run 1, CallStop, CallStop, Signal 0,
      Run 3, Run 3, Run 3, Run 3, Run 3, Run 4, StopReturns 4 None, Run 3,
      Run 2, Run 0, StartReturns 1 None]"

section \<open>Lemmas\<close>

subsection \<open>The steps of a goroutine, by program counter\<close>

lemmas exec_defs = New_def Add_def Start_def wg_done_def stopWg_done_def release_def

lemma run_task_simps [simp]:
  "run_task t HandleSignals w = (if ctxDone w then Some (wg_done t w) else None)"
  "run_task t (StartTrack svc) w =
     Some (w\<lparr>startedServices := startedServices w @ [svc],
             tasks := (tasks w)[t := StartCall svc]\<rparr>)"
  "run_task t (StartCall svc) w =
     Some (w\<lparr>calls := calls w @ [SvcStart svc], tasks := (tasks w)[t := InStart svc]\<rparr>)"
  "run_task t (InStart svc) w = None"
  "run_task t (OnceDo c) w =
     (case stopOnce w of
        NotRun \<Rightarrow> Some (w\<lparr>stopOnce := Running, tasks := (tasks w)[t := Cancel c]\<rparr>)
      | Running \<Rightarrow> None
      | Finished \<Rightarrow> Some (Stop_returns c t w))"
  "run_task t (Cancel c) w =
     Some (w\<lparr>ctxDone := True, calls := calls w @ [CtxCancel],
             tasks := (tasks w)[t := StopAllEnter c]\<rparr>)"
  "run_task t (StopAllEnter c) w =
     Some (w\<lparr>stopCtx := Some (if timeout w \<le> 0 then DeadlineExceeded else Active),
             stopWg := 0,
             calls := calls w @ [WithTimeout (timeout w)],
             tasks := (tasks w)[t := StopAllSnapshot c]\<rparr>)"
  "run_task t (StopAllSnapshot c) w =
     Some (w\<lparr>servicesToStop := startedServices w, tasks := (tasks w)[t := StopAllLaunch c]\<rparr>)"
  "run_task t (StopAllLaunch c) w =
     Some (w\<lparr>stopWg := stopWg w + length (servicesToStop w),
             tasks := (tasks w)[t := StopAllWait c] @ map StopCall (servicesToStop w)\<rparr>)"
  "run_task t (StopAllWait c) w =
     (if stopWg w = 0
      then Some (Stop_returns c t (w\<lparr>stopCtx := release (stopCtx w), stopOnce := Finished\<rparr>))
      else None)"
  "run_task t (StopCall svc) w =
     Some (w\<lparr>calls := calls w @ [SvcStop svc], tasks := (tasks w)[t := InStop svc]\<rparr>)"
  "run_task t (InStop svc) w = None"
  "run_task t Done w = None"
  by (simp_all add: run_task_def)

subsection \<open>Counting\<close>

lemma cnt_simps [simp]:
  "cnt P [] = 0"
  "cnt P (x # xs) = (if P x then 1 else 0) + cnt P xs"
  "cnt P (xs @ ys) = cnt P xs + cnt P ys"
  by (simp_all add: cnt_def)

lemma cnt_map_StopCall [simp]: "cnt (\<lambda>p. p = StopCall x) (map StopCall xs) = count_list xs x"
  by (induction xs) auto

lemma cnt_map_StartTrack [simp]:
  "cnt in_wg (map StartTrack xs) = length xs"
  "cnt in_body (map StartTrack xs) = 0"
  "cnt stop_task (map StartTrack xs) = 0"
  "cnt (\<lambda>p. p = StopCall x) (map StartTrack xs) = 0"
  "cnt (\<lambda>p. p = StartCall x) (map StartTrack xs) = 0"
  "sum_list (map phase (map StartTrack xs)) = 0"
  by (induction xs) (simp_all add: in_body_def)

lemma cnt_map_StopCall_others [simp]:
  "cnt in_wg (map StopCall xs) = 0"
  "cnt in_body (map StopCall xs) = 0"
  "cnt stop_task (map StopCall xs) = length xs"
  "cnt (\<lambda>p. p = StartCall x) (map StopCall xs) = 0"
  "sum_list (map phase (map StopCall xs)) = 0"
  by (induction xs) (simp_all add: in_body_def)

lemma phase_sum_0 [simp]: "cnt in_body xs = 0 \<Longrightarrow> sum_list (map phase xs) = 0"
  by (induction xs) (auto simp: in_body_def split: if_splits)

lemma task_at:
  "t < length xs \<Longrightarrow> xs ! t = p \<Longrightarrow> \<exists>ys zs. xs = ys @ p # zs \<and> length ys = t"
  using id_take_nth_drop [of t xs] by (metis length_take min.absorb2 less_imp_le)

subsection \<open>The effect of a step\<close>

lemma wg_done_fields [simp]:
  "tasks (wg_done t w) = (tasks w)[t := Done]"
  "wg (wg_done t w) = wg w - 1"
  "panicked (wg_done t w) = (panicked w \<or> wg w = 0)"
  "stopWg (wg_done t w) = stopWg w"
  "stopOnce (wg_done t w) = stopOnce w"
  "ctxDone (wg_done t w) = ctxDone w"
  "calls (wg_done t w) = calls w"
  "startedServices (wg_done t w) = startedServices w"
  "servicesToStop (wg_done t w) = servicesToStop w"
  "services (wg_done t w) = services w"
  "timeout (wg_done t w) = timeout w"
  "stopCtx (wg_done t w) = stopCtx w"
  by (simp_all add: wg_done_def)

lemma stopWg_done_fields [simp]:
  "tasks (stopWg_done t w) = (tasks w)[t := Done]"
  "wg (stopWg_done t w) = wg w"
  "panicked (stopWg_done t w) = (panicked w \<or> stopWg w = 0)"
  "stopWg (stopWg_done t w) = stopWg w - 1"
  "stopOnce (stopWg_done t w) = stopOnce w"
  "ctxDone (stopWg_done t w) = ctxDone w"
  "calls (stopWg_done t w) = calls w"
  "startedServices (stopWg_done t w) = startedServices w"
  "servicesToStop (stopWg_done t w) = servicesToStop w"
  "services (stopWg_done t w) = services w"
  "timeout (stopWg_done t w) = timeout w"
  "stopCtx (stopWg_done t w) = stopCtx w"
  by (simp_all add: stopWg_done_def)

lemma Stop_returns_fields [simp]:
  "tasks (Stop_returns c t w) = (tasks w)[t := Done]"
  "wg (Stop_returns c t w) = (if c = Task then wg w - 1 else wg w)"
  "panicked (Stop_returns c t w) = (panicked w \<or> c = Task \<and> wg w = 0)"
  "stopWg (Stop_returns c t w) = stopWg w"
  "stopOnce (Stop_returns c t w) = stopOnce w"
  "ctxDone (Stop_returns c t w) = ctxDone w"
  "calls (Stop_returns c t w) = calls w"
  "startedServices (Stop_returns c t w) = startedServices w"
  "servicesToStop (Stop_returns c t w) = servicesToStop w"
  "services (Stop_returns c t w) = services w"
  "timeout (Stop_returns c t w) = timeout w"
  "stopCtx (Stop_returns c t w) = stopCtx w"
  by (cases c; simp)+

lemma progress_same:
  "stopOnce w' = stopOnce w \<Longrightarrow>
   sum_list (map phase (tasks w')) = sum_list (map phase (tasks w)) \<Longrightarrow>
   progress w' = progress w"
  by (simp add: progress_def split: once.splits)

lemma progress_Running:
  "stopOnce w = Running \<Longrightarrow> progress w = sum_list (map phase (tasks w))"
  by (simp add: progress_def)

lemma progress_NotRun: "stopOnce w = NotRun \<Longrightarrow> progress w = 0"
  by (simp add: progress_def)

lemma progress_Finished: "stopOnce w = Finished \<Longrightarrow> progress w = 6"
  by (simp add: progress_def)

lemma body_alone:
  assumes "guard_inv w" and "tasks w = ys @ p # zs" and "0 < phase p"
  shows "stopOnce w = Running" and "cnt in_body ys = 0" and "cnt in_body zs = 0"
  using assms by (simp_all add: guard_inv_def in_body_def split: if_splits)

lemma step_cases [consumes 2, case_names Add Start CallStop Deadline Signal StartOk StartFails
    StopReturned Handler Track StartCall Enter Skip Cancel StopAll Snapshot Launch Finish StopCall]:
  assumes "step w e = Some w'" and "guard_inv w"
  obtains
    svc where "e = CallAdd svc" "w' = w\<lparr>services := services w @ [svc]\<rparr>"
      "progress w' = progress w"
  | "e = CallStart"
      "w' = w\<lparr>wg := wg w + 1 + length (services w),
               tasks := tasks w @ HandleSignals # map StartTrack (services w)\<rparr>"
      "progress w' = progress w"
  | "e = CallStop" "w' = w\<lparr>tasks := tasks w @ [OnceDo External]\<rparr>"
      "progress w' = progress w"
  | "e = Deadline" "stopCtx w = Some Active" "w' = w\<lparr>stopCtx := Some DeadlineExceeded\<rparr>"
      "progress w' = progress w"
  | ys zs where "e = Signal (length ys)" "tasks w = ys @ HandleSignals # zs"
      "w' = w\<lparr>tasks := ys @ OnceDo Task # zs\<rparr>"
      "progress w' = progress w"
  | ys zs svc where "e = StartReturns (length ys) None" "tasks w = ys @ InStart svc # zs"
      "w' = wg_done (length ys) w"
      "progress w' = progress w"
  | ys zs svc err where "e = StartReturns (length ys) (Some err)"
      "tasks w = ys @ InStart svc # zs"
      "w' = w\<lparr>tasks := ys @ OnceDo Task # zs\<rparr>"
      "progress w' = progress w"
  | ys zs svc r where "e = StopReturns (length ys) r" "tasks w = ys @ InStop svc # zs"
      "w' = stopWg_done (length ys) w"
      "progress w' = progress w"
  | ys zs where "e = Run (length ys)" "tasks w = ys @ HandleSignals # zs" "ctxDone w"
      "w' = wg_done (length ys) w"
      "progress w' = progress w"
  | ys zs svc where "e = Run (length ys)" "tasks w = ys @ StartTrack svc # zs"
      "w' = w\<lparr>startedServices := startedServices w @ [svc],
               tasks := ys @ StartCall svc # zs\<rparr>"
      "progress w' = progress w"
  | ys zs svc where "e = Run (length ys)" "tasks w = ys @ StartCall svc # zs"
      "w' = w\<lparr>calls := calls w @ [SvcStart svc], tasks := ys @ InStart svc # zs\<rparr>"
      "progress w' = progress w"
  | ys zs c where "e = Run (length ys)" "tasks w = ys @ OnceDo c # zs" "stopOnce w = NotRun"
      "w' = w\<lparr>stopOnce := Running, tasks := ys @ Cancel c # zs\<rparr>"
      "progress w = 0" "progress w' = 1" "cnt in_body ys = 0" "cnt in_body zs = 0"
  | ys zs c where "e = Run (length ys)" "tasks w = ys @ OnceDo c # zs" "stopOnce w = Finished"
      "w' = Stop_returns c (length ys) w"
      "progress w = 6" "progress w' = 6"
  | ys zs c where "e = Run (length ys)" "tasks w = ys @ Cancel c # zs" "stopOnce w = Running"
      "w' = w\<lparr>ctxDone := True, calls := calls w @ [CtxCancel],
               tasks := ys @ StopAllEnter c # zs\<rparr>"
      "progress w = 1" "progress w' = 2" "cnt in_body ys = 0" "cnt in_body zs = 0"
  | ys zs c where "e = Run (length ys)" "tasks w = ys @ StopAllEnter c # zs"
      "stopOnce w = Running"
      "w' = w\<lparr>stopCtx := Some (if timeout w \<le> 0 then DeadlineExceeded else Active),
               stopWg := 0, calls := calls w @ [WithTimeout (timeout w)],
               tasks := ys @ StopAllSnapshot c # zs\<rparr>"
      "progress w = 2" "progress w' = 3" "cnt in_body ys = 0" "cnt in_body zs = 0"
  | ys zs c where "e = Run (length ys)" "tasks w = ys @ StopAllSnapshot c # zs"
      "stopOnce w = Running"
      "w' = w\<lparr>servicesToStop := startedServices w, tasks := ys @ StopAllLaunch c # zs\<rparr>"
      "progress w = 3" "progress w' = 4" "cnt in_body ys = 0" "cnt in_body zs = 0"
  | ys zs c where "e = Run (length ys)" "tasks w = ys @ StopAllLaunch c # zs"
      "stopOnce w = Running"
      "w' = w\<lparr>stopWg := stopWg w + length (servicesToStop w),
               tasks := (ys @ StopAllWait c # zs) @ map StopCall (servicesToStop w)\<rparr>"
      "progress w = 4" "progress w' = 5" "cnt in_body ys = 0" "cnt in_body zs = 0"
  | ys zs c where "e = Run (length ys)" "tasks w = ys @ StopAllWait c # zs"
      "stopOnce w = Running" "stopWg w = 0"
      "w' = Stop_returns c (length ys) (w\<lparr>stopCtx := release (stopCtx w), stopOnce := Finished\<rparr>)"
      "progress w = 5" "progress w' = 6" "cnt in_body ys = 0" "cnt in_body zs = 0"
  | ys zs svc where "e = Run (length ys)" "tasks w = ys @ StopCall svc # zs"
      "w' = w\<lparr>calls := calls w @ [SvcStop svc], tasks := ys @ InStop svc # zs\<rparr>"
      "progress w' = progress w"
proof (cases e)
  case (CallAdd svc)
  with assms(1) have w': "w' = w\<lparr>services := services w @ [svc]\<rparr>"
    by (simp add: Add_def)
  have "progress w' = progress w" by (rule progress_same) (simp_all add: w')
  with CallAdd w' show ?thesis by (rule that(1))
next
  case CallStart
  with assms(1) have w': "w' = w\<lparr>wg := wg w + 1 + length (services w),
      tasks := tasks w @ HandleSignals # map StartTrack (services w)\<rparr>"
    by (simp add: Start_def)
  have "progress w' = progress w" by (rule progress_same) (simp_all add: w')
  with CallStart w' show ?thesis by (rule that(2))
next
  case CallStop
  with assms(1) have w': "w' = w\<lparr>tasks := tasks w @ [OnceDo External]\<rparr>" by simp
  have "progress w' = progress w" by (rule progress_same) (simp_all add: w')
  with CallStop w' show ?thesis by (rule that(3))
next
  case Deadline
  with assms(1) have a: "stopCtx w = Some Active" and w': "w' = w\<lparr>stopCtx := Some DeadlineExceeded\<rparr>"
    by (auto split: option.splits ctxstate.splits)
  have "progress w' = progress w" by (rule progress_same) (simp_all add: w')
  with Deadline a w' show ?thesis by (rule that(4))
next
  case (Signal t)
  with assms(1) have t: "t < length (tasks w)" and p: "tasks w ! t = HandleSignals"
    and w0: "w' = w\<lparr>tasks := (tasks w)[t := OnceDo Task]\<rparr>"
    by (auto split: if_splits pc.splits)
  from task_at [OF t p] obtain ys zs where T: "tasks w = ys @ HandleSignals # zs" and l: "length ys = t"
    by blast
  have e: "e = Signal (length ys)" using Signal l by simp
  have w': "w' = w\<lparr>tasks := ys @ OnceDo Task # zs\<rparr>" using w0 T l by auto
  have "progress w' = progress w" by (rule progress_same) (simp_all add: w' T)
  with e T w' show ?thesis by (rule that(5))
next
  case (StartReturns t r)
  with assms(1) obtain svc where t: "t < length (tasks w)" and p: "tasks w ! t = InStart svc"
    by (auto split: if_splits pc.splits)
  from task_at [OF t p] obtain ys zs where T: "tasks w = ys @ InStart svc # zs" and l: "length ys = t"
    by blast
  show ?thesis
  proof (cases r)
    case None
    have e: "e = StartReturns (length ys) None" using StartReturns None l by simp
    have w': "w' = wg_done (length ys) w" using assms(1) StartReturns None t p l by simp
    have "progress w' = progress w" by (rule progress_same) (simp_all add: w' T)
    with e T w' show ?thesis by (rule that(6))
  next
    case (Some err)
    have e: "e = StartReturns (length ys) (Some err)" using StartReturns Some l by simp
    have w': "w' = w\<lparr>tasks := ys @ OnceDo Task # zs\<rparr>"
      using assms(1) StartReturns Some t p l T by auto
    have "progress w' = progress w" by (rule progress_same) (simp_all add: w' T)
    with e T w' show ?thesis by (rule that(7))
  qed
next
  case (StopReturns t r)
  with assms(1) obtain svc where t: "t < length (tasks w)" and p: "tasks w ! t = InStop svc"
    by (auto split: if_splits pc.splits)
  from task_at [OF t p] obtain ys zs where T: "tasks w = ys @ InStop svc # zs" and l: "length ys = t"
    by blast
  have e: "e = StopReturns (length ys) r" using StopReturns l by simp
  have w': "w' = stopWg_done (length ys) w" using assms(1) StopReturns t p l by simp
  have "progress w' = progress w" by (rule progress_same) (simp_all add: w' T)
  with e T w' show ?thesis by (rule that(8))
next
  case (Run t)
  with assms(1) have t: "t < length (tasks w)" and r: "run_task t (tasks w ! t) w = Some w'"
    by (auto split: if_splits)
  show ?thesis
  proof (cases "tasks w ! t")
    case HandleSignals
    from task_at [OF t HandleSignals] obtain ys zs
      where T: "tasks w = ys @ HandleSignals # zs" and l: "length ys = t" by blast
    have e: "e = Run (length ys)" using Run l by simp
    have c: "ctxDone w" and w': "w' = wg_done (length ys) w"
      using r HandleSignals l by (auto split: if_splits)
    have "progress w' = progress w" by (rule progress_same) (simp_all add: w' T)
    with e T c w' show ?thesis by (rule that(9))
  next
    case (StartTrack svc)
    from task_at [OF t StartTrack] obtain ys zs
      where T: "tasks w = ys @ StartTrack svc # zs" and l: "length ys = t" by blast
    have e: "e = Run (length ys)" using Run l by simp
    have w': "w' = w\<lparr>startedServices := startedServices w @ [svc],
               tasks := ys @ StartCall svc # zs\<rparr>"
      using r StartTrack l T by auto
    have "progress w' = progress w" by (rule progress_same) (simp_all add: w' T)
    with e T w' show ?thesis by (rule that(10))
  next
    case (StartCall svc)
    from task_at [OF t StartCall] obtain ys zs
      where T: "tasks w = ys @ StartCall svc # zs" and l: "length ys = t" by blast
    have e: "e = Run (length ys)" using Run l by simp
    have w': "w' = w\<lparr>calls := calls w @ [SvcStart svc], tasks := ys @ InStart svc # zs\<rparr>"
      using r StartCall l T by auto
    have "progress w' = progress w" by (rule progress_same) (simp_all add: w' T)
    with e T w' show ?thesis by (rule that(11))
  next
    case (InStart svc)
    with r show ?thesis by simp
  next
    case (OnceDo c)
    from task_at [OF t OnceDo] obtain ys zs
      where T: "tasks w = ys @ OnceDo c # zs" and l: "length ys = t" by blast
    have e: "e = Run (length ys)" using Run l by simp
    show ?thesis
    proof (cases "stopOnce w")
      case NotRun
      with assms(2) T have z: "cnt in_body ys = 0" "cnt in_body zs = 0"
        by (simp_all add: guard_inv_def)
      have w': "w' = w\<lparr>stopOnce := Running, tasks := ys @ Cancel c # zs\<rparr>"
        using r OnceDo NotRun l T by auto
      have p0: "progress w = 0" using NotRun by (rule progress_NotRun)
      have p1: "progress w' = 1" using z by (simp add: progress_def w')
      from e T NotRun w' p0 p1 z show ?thesis by (rule that(12))
    next
      case Running
      with r OnceDo show ?thesis by simp
    next
      case Finished
      have w': "w' = Stop_returns c (length ys) w" using r OnceDo Finished l by simp
      have p0: "progress w = 6" using Finished by (rule progress_Finished)
      have p1: "progress w' = 6" using Finished by (simp add: progress_def w')
      from e T Finished w' p0 p1 show ?thesis by (rule that(13))
    qed
  next
    case (Cancel c)
    from task_at [OF t Cancel] obtain ys zs
      where T: "tasks w = ys @ Cancel c # zs" and l: "length ys = t" by blast
    have e: "e = Run (length ys)" using Run l by simp
    note b = body_alone [OF assms(2) T]
    have w': "w' = w\<lparr>ctxDone := True, calls := calls w @ [CtxCancel],
               tasks := ys @ StopAllEnter c # zs\<rparr>"
      using r Cancel l T by auto
    have p0: "progress w = 1" using b by (simp add: progress_def T)
    have p1: "progress w' = 2" using b by (simp add: progress_def w')
    from e T b(1) w' p0 p1 b(2,3) show ?thesis by (simp add: that(14))
  next
    case (StopAllEnter c)
    from task_at [OF t StopAllEnter] obtain ys zs
      where T: "tasks w = ys @ StopAllEnter c # zs" and l: "length ys = t" by blast
    have e: "e = Run (length ys)" using Run l by simp
    note b = body_alone [OF assms(2) T]
    have w': "w' = w\<lparr>stopCtx := Some (if timeout w \<le> 0 then DeadlineExceeded else Active),
               stopWg := 0, calls := calls w @ [WithTimeout (timeout w)],
               tasks := ys @ StopAllSnapshot c # zs\<rparr>"
      using r StopAllEnter l T by auto
    have p0: "progress w = 2" using b by (simp add: progress_def T)
    have p1: "progress w' = 3" using b by (simp add: progress_def w')
    from e T b(1) w' p0 p1 b(2,3) show ?thesis by (simp add: that(15))
  next
    case (StopAllSnapshot c)
    from task_at [OF t StopAllSnapshot] obtain ys zs
      where T: "tasks w = ys @ StopAllSnapshot c # zs" and l: "length ys = t" by blast
    have e: "e = Run (length ys)" using Run l by simp
    note b = body_alone [OF assms(2) T]
    have w': "w' = w\<lparr>servicesToStop := startedServices w, tasks := ys @ StopAllLaunch c # zs\<rparr>"
      using r StopAllSnapshot l T by auto
    have p0: "progress w = 3" using b by (simp add: progress_def T)
    have p1: "progress w' = 4" using b by (simp add: progress_def w')
    from e T b(1) w' p0 p1 b(2,3) show ?thesis by (simp add: that(16))
  next
    case (StopAllLaunch c)
    from task_at [OF t StopAllLaunch] obtain ys zs
      where T: "tasks w = ys @ StopAllLaunch c # zs" and l: "length ys = t" by blast
    have e: "e = Run (length ys)" using Run l by simp
    note b = body_alone [OF assms(2) T]
    have w': "w' = w\<lparr>stopWg := stopWg w + length (servicesToStop w),
               tasks := (ys @ StopAllWait c # zs) @ map StopCall (servicesToStop w)\<rparr>"
      using r StopAllLaunch l T by auto
    have p0: "progress w = 4" using b by (simp add: progress_def T)
    have p1: "progress w' = 5" using b by (simp add: progress_def w')
    from e T b(1) w' p0 p1 b(2,3) show ?thesis by (simp add: that(17))
  next
    case (StopAllWait c)
    from task_at [OF t StopAllWait] obtain ys zs
      where T: "tasks w = ys @ StopAllWait c # zs" and l: "length ys = t" by blast
    have e: "e = Run (length ys)" using Run l by simp
    note b = body_alone [OF assms(2) T]
    have s0: "stopWg w = 0"
      and w': "w' = Stop_returns c (length ys) (w\<lparr>stopCtx := release (stopCtx w), stopOnce := Finished\<rparr>)"
      using r StopAllWait l by (auto split: if_splits)
    have p0: "progress w = 5" using b by (simp add: progress_def T)
    have p1: "progress w' = 6" by (simp add: progress_def w')
    from e T b(1) s0 w' p0 p1 b(2,3) show ?thesis by (simp add: that(18))
  next
    case (StopCall svc)
    from task_at [OF t StopCall] obtain ys zs
      where T: "tasks w = ys @ StopCall svc # zs" and l: "length ys = t" by blast
    have e: "e = Run (length ys)" using Run l by simp
    have w': "w' = w\<lparr>calls := calls w @ [SvcStop svc], tasks := ys @ InStop svc # zs\<rparr>"
      using r StopCall l T by auto
    have "progress w' = progress w" by (rule progress_same) (simp_all add: w' T)
    with e T w' show ?thesis by (rule that(19))
  next
    case (InStop svc)
    with r show ?thesis by simp
  next
    case Done
    with r show ?thesis by simp
  qed
qed

subsection \<open>Every step keeps the invariants\<close>

lemma sbc_le: "started_before_cancel cs x \<le> count_list cs (SvcStart x)"
proof -
  have "count_list (takeWhile P cs) a \<le> count_list cs a" for P and a :: action
    by (induction cs) auto
  then show ?thesis by (simp add: started_before_cancel_def)
qed

lemma sbc_append:
  assumes "count_list cs CtxCancel = 1"
  shows "started_before_cancel (cs @ ds) x = started_before_cancel cs x"
proof -
  from assms have "CtxCancel \<in> set cs" by (metis count_list_0_iff zero_neq_one)
  then show ?thesis by (simp add: started_before_cancel_def)
qed

lemma guard_inv_step:
  assumes "step w e = Some w'" and "guard_inv w"
  shows "guard_inv w'"
  using assms
proof (cases rule: step_cases)
qed (use assms(2) in \<open>simp_all add: guard_inv_def in_body_def\<close>)

lemma counters_inv_step:
  assumes "step w e = Some w'" and "guard_inv w" and "counters_inv w"
  shows "counters_inv w'"
  using assms(1,2)
proof (cases rule: step_cases)
qed (use assms(3) in \<open>auto simp: counters_inv_def\<close>)

lemma calls_inv_step:
  assumes "step w e = Some w'" and "guard_inv w" and "calls_inv w"
  shows "calls_inv w'"
  using assms(1,2)
proof (cases rule: step_cases)
qed (use assms(3) in \<open>auto simp: calls_inv_def\<close>)

lemma stops_inv_step:
  assumes "step w e = Some w'" and "guard_inv w" and "stops_inv w"
  shows "stops_inv w'"
proof -
  have H: "count_list (calls w) (SvcStop x) + cnt (\<lambda>p. p = StopCall x) (tasks w)
          = (if 5 \<le> progress w then count_list (servicesToStop w) x else 0)" for x
    using assms(3) by (simp add: stops_inv_def)
  have "count_list (calls w') (SvcStop x) + cnt (\<lambda>p. p = StopCall x) (tasks w')
          = (if 5 \<le> progress w' then count_list (servicesToStop w') x else 0)" for x
    using assms(1,2)
  proof (cases rule: step_cases)
    case (StopCall ys zs svc)
    then show ?thesis using H [of x] H [of svc] by (auto split: if_splits)
  qed (use H [of x] in \<open>auto split: if_splits\<close>)
  then show ?thesis by (simp add: stops_inv_def)
qed

lemma starts_inv_step:
  assumes "step w e = Some w'" and "guard_inv w" and "starts_inv w"
  shows "starts_inv w'"
proof -
  have H: "count_list (calls w) (SvcStart x) + cnt (\<lambda>p. p = StartCall x) (tasks w)
          = count_list (startedServices w) x" for x
    using assms(3) by (simp add: starts_inv_def)
  have "count_list (calls w') (SvcStart x) + cnt (\<lambda>p. p = StartCall x) (tasks w')
          = count_list (startedServices w') x" for x
    using assms(1,2)
  proof (cases rule: step_cases)
  qed (use H [of x] in \<open>auto split: if_splits\<close>)
  then show ?thesis by (simp add: starts_inv_def)
qed

lemma snapshot_inv_step:
  assumes "step w e = Some w'" and "guard_inv w" and "calls_inv w" and "starts_inv w"
    and "snapshot_inv w"
  shows "snapshot_inv w'"
proof -
  have P: "prefix (servicesToStop w) (startedServices w)"
    and S: "4 \<le> progress w \<Longrightarrow> started_before_cancel (calls w) x \<le> count_list (servicesToStop w) x" for x
    using assms(5) by (simp_all add: snapshot_inv_def)
  have C: "2 \<le> progress w \<Longrightarrow> started_before_cancel (calls w @ ds) x = started_before_cancel (calls w) x" for ds x
    using assms(3) by (simp add: calls_inv_def sbc_append)
  have T: "started_before_cancel (calls w) x \<le> count_list (startedServices w) x" for x
    using sbc_le [of "calls w" x] assms(4) by (simp add: starts_inv_def) (metis le_add1 le_trans)
  have "prefix (servicesToStop w') (startedServices w')"
    using assms(1,2)
  proof (cases rule: step_cases)
  qed (use P in \<open>auto\<close>)
  moreover have "4 \<le> progress w' \<Longrightarrow>
      started_before_cancel (calls w') x \<le> count_list (servicesToStop w') x" for x
    using assms(1,2)
  proof (cases rule: step_cases)
  qed (use S [of x] C [of _ x] T [of x] in \<open>auto\<close>)
  ultimately show ?thesis by (simp add: snapshot_inv_def)
qed

lemma inv_step:
  assumes "step w e = Some w'" and "inv w"
  shows "inv w'"
proof -
  from assms(2) have g: "guard_inv w" and c: "counters_inv w" and k: "calls_inv w"
    and p: "stops_inv w" and a: "starts_inv w" and n: "snapshot_inv w"
    by (simp_all add: inv_def)
  note s = assms(1)
  from guard_inv_step [OF s g] counters_inv_step [OF s g c] calls_inv_step [OF s g k]
    stops_inv_step [OF s g p] starts_inv_step [OF s g a] snapshot_inv_step [OF s g k a n]
  show ?thesis by (simp add: inv_def)
qed

lemma inv_New: "inv (New d)"
  by (simp add: inv_def New_def guard_inv_def counters_inv_def calls_inv_def stops_inv_def
      starts_inv_def snapshot_inv_def progress_def started_before_cancel_def)

lemma inv_run: "run w es = Some w' \<Longrightarrow> inv w \<Longrightarrow> inv w'"
proof (induction es arbitrary: w)
  case Nil
  then show ?case by simp
next
  case (Cons e es)
  from Cons.prems(1) obtain w1 where s: "step w e = Some w1" and r: "run w1 es = Some w'"
    by (auto split: option.splits)
  from inv_step [OF s Cons.prems(2)] r show ?case by (rule Cons.IH [rotated])
qed

subsection \<open>What a schedule preserves\<close>

lemma cnt_0_iff: "cnt P xs = 0 \<longleftrightarrow> (\<forall>x \<in> set xs. \<not> P x)"
  by (induction xs) auto

lemma cnt_pos_iff: "0 < cnt P xs \<longleftrightarrow> (\<exists>x \<in> set xs. P x)"
  using cnt_0_iff [of P xs] by auto

lemma cnt_StartTrack_map [simp]:
  "cnt (\<lambda>p. p = StartTrack x) (map StopCall xs) = 0"
  "cnt (\<lambda>p. p = StartTrack x) (map StartTrack xs) = count_list xs x"
  by (induction xs) auto

lemma stop_invoked_step:
  assumes "step w e = Some w'" and "guard_inv w" and "stop_invoked w \<or> invokes_Stop e"
  shows "stop_invoked w'"
  using assms(1,2)
proof (cases rule: step_cases)
qed (use assms(3) in \<open>auto simp: stop_invoked_def\<close>)

lemma not_invoked_step:
  assumes "step w e = Some w'" and "guard_inv w" and "\<not> stop_invoked w" and "\<not> invokes_Stop e"
  shows "\<not> stop_invoked w'"
  using assms(1,2)
proof (cases rule: step_cases)
qed (use assms(3,4) in \<open>auto simp: stop_invoked_def\<close>)

lemma run_append:
  "run w (xs @ ys) = (case run w xs of None \<Rightarrow> None | Some w' \<Rightarrow> run w' ys)"
  by (induction xs arbitrary: w) (simp_all split: option.splits)

lemma run_ConsE:
  assumes "run w (e # es) = Some w'"
  obtains w1 where "step w e = Some w1" and "run w1 es = Some w'"
  using assms by (auto split: option.splits)

lemma run_append_Some: "run w xs = Some w1 \<Longrightarrow> run w1 ys = r \<Longrightarrow> run w (xs @ ys) = r"
  by (simp add: run_append)

lemma run_task_services: "run_task t p w = Some w' \<Longrightarrow> services w' = services w"
  by (cases p) (auto split: if_splits once.splits)

lemma step_services:
  "step w e = Some w' \<Longrightarrow>
   services w' = services w @ (case e of CallAdd svc \<Rightarrow> [svc] | _ \<Rightarrow> [])"
  by (cases e)
     (auto simp: Add_def Start_def dest: run_task_services
           split: if_splits pc.splits option.splits ctxstate.splits)

lemma run_services: "run w es = Some w' \<Longrightarrow> services w' = services w @ registered es"
proof (induction es arbitrary: w)
  case Nil
  then show ?case by (simp add: registered_def)
next
  case (Cons e es)
  from Cons.prems obtain w1 where s: "step w e = Some w1" and r: "run w1 es = Some w'"
    by (rule run_ConsE)
  from Cons.IH [OF r] step_services [OF s] show ?case
    by (simp add: registered_def)
qed

lemma step_forget_stop: "step w (forget_stop_outcome e) = step w e"
  by (cases e) simp_all

lemma stop_invoked_run:
  assumes "run w es = Some w'" and "inv w" and "stop_invoked w \<or> (\<exists>e \<in> set es. invokes_Stop e)"
  shows "stop_invoked w'"
  using assms
proof (induction es arbitrary: w)
  case Nil
  then show ?case by simp
next
  case (Cons e es)
  from Cons.prems(1) obtain w1 where s: "step w e = Some w1" and r: "run w1 es = Some w'"
    by (rule run_ConsE)
  have g: "guard_inv w" using Cons.prems(2) by (simp add: inv_def)
  have i1: "inv w1" using s Cons.prems(2) by (rule inv_step)
  have "stop_invoked w1 \<or> (\<exists>e \<in> set es. invokes_Stop e)"
  proof (cases "stop_invoked w \<or> invokes_Stop e")
    case True
    with s g have "stop_invoked w1" by (rule stop_invoked_step)
    then show ?thesis ..
  next
    case False
    with Cons.prems(3) show ?thesis by simp
  qed
  with r i1 show ?case by (rule Cons.IH)
qed

lemma not_invoked_run:
  assumes "run w es = Some w'" and "inv w" and "\<not> stop_invoked w"
    and "\<forall>e \<in> set es. \<not> invokes_Stop e"
  shows "\<not> stop_invoked w'"
  using assms
proof (induction es arbitrary: w)
  case Nil
  then show ?case by simp
next
  case (Cons e es)
  from Cons.prems(1) obtain w1 where s: "step w e = Some w1" and r: "run w1 es = Some w'"
    by (rule run_ConsE)
  have g: "guard_inv w" using Cons.prems(2) by (simp add: inv_def)
  have i1: "inv w1" using s Cons.prems(2) by (rule inv_step)
  have e: "\<not> invokes_Stop e" and es: "\<forall>e \<in> set es. \<not> invokes_Stop e"
    using Cons.prems(4) by simp_all
  have "\<not> stop_invoked w1" using s g Cons.prems(3) e by (rule not_invoked_step)
  with r i1 show ?case using es by (rule Cons.IH)
qed

lemma finished_step:
  assumes "step w e = Some w'" and "guard_inv w" and "stopOnce w = Finished"
  shows "stopOnce w' = Finished \<and> servicesToStop w' = servicesToStop w \<and> (ctxDone w \<longrightarrow> ctxDone w')"
  using assms(1,2)
proof (cases rule: step_cases)
qed (use assms(3) in \<open>auto\<close>)

lemma ctxDone_step:
  assumes "step w e = Some w'" and "guard_inv w" and "ctxDone w"
  shows "ctxDone w'"
  using assms(1,2)
proof (cases rule: step_cases)
qed (use assms(3) in \<open>auto\<close>)


lemma listener_step:
  assumes "step w e = Some w'" and "guard_inv w" and "\<not> ctxDone w" and "\<not> invokes_Stop e"
    and "HandleSignals \<in> set (tasks w)"
  shows "HandleSignals \<in> set (tasks w')"
  using assms(1,2)
proof (cases rule: step_cases)
qed (use assms(3,4,5) in \<open>auto\<close>)

lemma step_forget_start_error: "step w (forget_start_error e) = step w e"
proof (cases e)
  case (StartReturns t r)
  then show ?thesis by (cases r) (auto split: pc.splits)
qed simp_all

lemma run_forget_start_error: "run w (map forget_start_error es) = run w es"
  by (induction es arbitrary: w) (simp_all add: step_forget_start_error split: option.splits)

subsection \<open>Consequences of the invariants\<close>

lemma inv_reachable: "run (New d) es = Some w \<Longrightarrow> inv w"
  using inv_New by (rule inv_run [rotated])

lemma cnt_le_cnt: "(\<And>x. P x \<Longrightarrow> Q x) \<Longrightarrow> cnt P xs \<le> cnt Q xs"
  by (induction xs) auto

lemma prefix_count_le: "prefix xs ys \<Longrightarrow> count_list xs x \<le> count_list ys x"
  by (auto simp: prefix_def)

lemma finished_run:
  assumes "run w es = Some w'" and "inv w" and "stopOnce w = Finished"
  shows "stopOnce w' = Finished \<and> servicesToStop w' = servicesToStop w"
  using assms
proof (induction es arbitrary: w)
  case Nil
  then show ?case by simp
next
  case (Cons e es)
  from Cons.prems(1) obtain w1 where s: "step w e = Some w1" and r: "run w1 es = Some w'"
    by (rule run_ConsE)
  have g: "guard_inv w" using Cons.prems(2) by (simp add: inv_def)
  have i1: "inv w1" using s Cons.prems(2) by (rule inv_step)
  from finished_step [OF s g Cons.prems(3)]
  have f: "stopOnce w1 = Finished" and k: "servicesToStop w1 = servicesToStop w" by simp_all
  from Cons.IH [OF r i1 f] k show ?case by simp
qed

lemma inv_Finished:
  assumes "inv w" and "stopOnce w = Finished"
  shows "ctxDone w" and "count_list (calls w) CtxCancel = 1" and "cnt is_WithTimeout (calls w) = 1"
    and "cnt stop_task (tasks w) = 0"
    and "count_list (calls w) (SvcStop x) = count_list (servicesToStop w) x"
    and "started_before_cancel (calls w) x \<le> count_list (servicesToStop w) x"
proof -
  have p: "progress w = 6" using assms(2) by (rule progress_Finished)
  from assms(1) p show "ctxDone w" "count_list (calls w) CtxCancel = 1"
    "cnt is_WithTimeout (calls w) = 1" "cnt stop_task (tasks w) = 0"
    by (simp_all add: inv_def calls_inv_def counters_inv_def)
  have "cnt (\<lambda>p. p = StopCall x) (tasks w) \<le> cnt stop_task (tasks w)"
    by (rule cnt_le_cnt) simp
  with \<open>cnt stop_task (tasks w) = 0\<close> have z: "cnt (\<lambda>p. p = StopCall x) (tasks w) = 0" by simp
  from assms(1) have "count_list (calls w) (SvcStop x) + cnt (\<lambda>p. p = StopCall x) (tasks w)
          = (if 5 \<le> progress w then count_list (servicesToStop w) x else 0)"
    by (simp add: inv_def stops_inv_def)
  with z p show "count_list (calls w) (SvcStop x) = count_list (servicesToStop w) x" by simp
  from assms(1) p show "started_before_cancel (calls w) x \<le> count_list (servicesToStop w) x"
    by (simp add: inv_def snapshot_inv_def)
qed

lemma inv_stop_calls_le:
  assumes "inv w"
  shows "count_list (calls w) (SvcStop x) \<le> count_list (servicesToStop w) x"
    and "count_list (calls w) (SvcStop x) \<le> count_list (startedServices w) x"
proof -
  from assms have "count_list (calls w) (SvcStop x) + cnt (\<lambda>p. p = StopCall x) (tasks w)
          = (if 5 \<le> progress w then count_list (servicesToStop w) x else 0)"
    by (simp add: inv_def stops_inv_def)
  then show a: "count_list (calls w) (SvcStop x) \<le> count_list (servicesToStop w) x"
    by (simp split: if_splits)
  from assms have "prefix (servicesToStop w) (startedServices w)"
    by (simp add: inv_def snapshot_inv_def)
  from prefix_count_le [OF this, of x] a
  show "count_list (calls w) (SvcStop x) \<le> count_list (startedServices w) x" by simp
qed

lemma no_body_not_Running:
  assumes "inv w" and "\<forall>p \<in> set (tasks w). \<not> inside_Stop p"
  shows "stopOnce w \<noteq> Running"
proof
  assume "stopOnce w = Running"
  with assms(1) have "0 < cnt in_body (tasks w)" by (simp add: inv_def guard_inv_def)
  then obtain p where m: "p \<in> set (tasks w)" and b: "in_body p" by (auto simp: cnt_pos_iff)
  from b have "inside_Stop p" by (cases p) (simp_all add: in_body_def)
  with assms(2) m show False by blast
qed

lemma run_Adds:
  "run w (map CallAdd svcs @ es) = run (w\<lparr>services := services w @ svcs\<rparr>) es"
  by (induction svcs arbitrary: w) (simp_all add: Add_def)

lemma ctxDone_run:
  assumes "run w es = Some w'" and "inv w" and "ctxDone w"
  shows "ctxDone w'"
  using assms
proof (induction es arbitrary: w)
  case Nil
  then show ?case by simp
next
  case (Cons e es)
  from Cons.prems(1) obtain w1 where s: "step w e = Some w1" and r: "run w1 es = Some w'"
    by (rule run_ConsE)
  have g: "guard_inv w" using Cons.prems(2) by (simp add: inv_def)
  have i1: "inv w1" using s Cons.prems(2) by (rule inv_step)
  from ctxDone_step [OF s g Cons.prems(3)] have "ctxDone w1" .
  with r i1 show ?case by (rule Cons.IH)
qed

subsection \<open>No deadlock once \<open>Stop()\<close> has been entered\<close>

lemma rank_map_StopCall [simp]:
  "sum_list (map (rank \<circ> StopCall) xs) = 2 * length xs"
  "cnt is_StartTrack (map StopCall xs) = 0"
  by (induction xs) simp_all






subsection \<open>Start closures, the blocked fan-out, the blocked listener\<close>













lemma listener_run:
  assumes "run w es = Some w'" and "inv w" and "\<not> stop_invoked w"
    and "\<forall>e \<in> set es. \<not> invokes_Stop e" and "HandleSignals \<in> set (tasks w)"
  shows "HandleSignals \<in> set (tasks w') \<and> \<not> stop_invoked w'"
  using assms
proof (induction es arbitrary: w)
  case Nil
  then show ?case by simp
next
  case (Cons e es)
  from Cons.prems(1) obtain w1 where s: "step w e = Some w1" and r: "run w1 es = Some w'"
    by (rule run_ConsE)
  have g: "guard_inv w" using Cons.prems(2) by (simp add: inv_def)
  have i1: "inv w1" using s Cons.prems(2) by (rule inv_step)
  have e: "\<not> invokes_Stop e" and es: "\<forall>e \<in> set es. \<not> invokes_Stop e"
    using Cons.prems(4) by simp_all
  from Cons.prems(3) have "progress w = 0" by (simp add: stop_invoked_def progress_def)
  with Cons.prems(2) have c: "\<not> ctxDone w" by (simp add: inv_def calls_inv_def)
  have n1: "\<not> stop_invoked w1" using s g Cons.prems(3) e by (rule not_invoked_step)
  have h1: "HandleSignals \<in> set (tasks w1)" using s g c e Cons.prems(5) by (rule listener_step)
  from r i1 n1 es h1 show ?case by (rule Cons.IH)
qed

lemma listener_blocks:
  assumes "run (New d) es = Some w" and "CallStart \<in> set es" and "\<forall>e \<in> set es. \<not> invokes_Stop e"
  shows "HandleSignals \<in> set (tasks w)" and "\<not> stop_invoked w" and "\<not> ctxDone w" and "Wait w = None"
proof -
  from assms(2) obtain ys zs where es: "es = ys @ CallStart # zs" by (auto simp: in_set_conv_decomp)
  from assms(1) es obtain w1 where r1: "run (New d) ys = Some w1"
    and r2: "run (fst (Start w1)) zs = Some w"
    by (auto simp: run_append split: option.splits)
  from assms(3) es have ys: "\<forall>e \<in> set ys. \<not> invokes_Stop e" and zs: "\<forall>e \<in> set zs. \<not> invokes_Stop e"
    by simp_all
  have i1: "inv w1" using r1 by (rule inv_reachable)
  have g1: "guard_inv w1" using i1 by (simp add: inv_def)
  have "\<not> stop_invoked (New d)" by (simp add: stop_invoked_def New_def)
  with r1 inv_New have n1: "\<not> stop_invoked w1" using ys by (rule not_invoked_run)
  have s: "step w1 CallStart = Some (fst (Start w1))" by simp
  have i2: "inv (fst (Start w1))" using s i1 by (rule inv_step)
  have n2: "\<not> stop_invoked (fst (Start w1))" using s g1 n1 by (rule not_invoked_step) simp
  have h2: "HandleSignals \<in> set (tasks (fst (Start w1)))" by (simp add: Start_def)
  from listener_run [OF r2 i2 n2 zs h2]
  show h: "HandleSignals \<in> set (tasks w)" and n: "\<not> stop_invoked w" by simp_all
  have i: "inv w" using assms(1) by (rule inv_reachable)
  from n have "progress w = 0" by (simp add: stop_invoked_def progress_def)
  with i show "\<not> ctxDone w" by (simp add: inv_def calls_inv_def)
  from h have "\<exists>p \<in> set (tasks w). in_wg p" by (intro bexI [of _ HandleSignals]) simp_all
  then have "0 < cnt in_wg (tasks w)" by (simp add: cnt_pos_iff)
  with i show "Wait w = None" by (simp add: Wait_def inv_def counters_inv_def)
qed

lemma Wait_iff:
  assumes "inv w"
  shows "Wait w = Some () \<longleftrightarrow> (\<forall>p \<in> set (tasks w). \<not> in_wg p)"
  using assms by (simp add: Wait_def inv_def counters_inv_def cnt_0_iff)

section \<open>The claims\<close>

text \<open>
  Throughout, \<open>run (New d) es = Some w\<close> says that \<open>w\<close> is the world a group made by
  \<open>New d\<close> is in after the schedule \<open>es\<close>: any calls of \<open>Add\<close>, \<open>Start\<close> and \<open>Stop\<close>, any
  interleaving of the goroutines, any behaviour of the services.
\<close>

text \<open>
  C1 (as amended). \<open>Wait\<close> returns exactly when every goroutine launched through
  \<open>lg.wg.Go\<close> has returned. It returns no value, and no start failure is recorded: the
  world a schedule leads to is the same when every start error is replaced by another
  error.
\<close>

theorem Wait_returns_no_outcome:
  assumes "run (New d) es = Some w"
  shows "(Wait w = Some () \<longleftrightarrow> (\<forall>p \<in> set (tasks w). \<not> in_wg p))
       \<and> run (New d) (map forget_start_error es) = Some w"
  using assms Wait_iff [OF inv_reachable [OF assms]] by (simp add: run_forget_start_error)

theorem Wait_returns_no_outcome_witness:
  "map_option Wait (run (New 5) (one_service_fails ''boom'')) = Some (Some ())
   \<and> run (New 5) (map forget_start_error (one_service_fails ''boom''))
     = run (New 5) (one_service_fails ''boom'')"
proof -
  obtain w where r: "run (New 5) (one_service_fails ''boom'') = Some w"
    and t: "tasks w = [Done, Done, Done]"
    by (simp add: one_service_fails_def exec_defs)
  from Wait_returns_no_outcome [OF r] t r show ?thesis by simp
qed

text \<open>
  C1 as stated fails: \<open>Wait\<close> returns the same (nothing) after a run in which the only
  service failed its start and after a run in which it started, was stopped and returned
  \<open>nil\<close>; and the run with the failure leads to the same world whatever the error.
\<close>

theorem Wait_same_after_failure_counterexample:
  "map_option Wait (run (New 5) (one_service_fails ''boom'')) = Some (Some ())
   \<and> map_option Wait (run (New 5) one_service_stopped) = Some (Some ())
   \<and> run (New 5) (one_service_fails ''boom'') = run (New 5) (one_service_fails ''bang'')"
  by (simp add: one_service_fails_def one_service_stopped_def exec_defs Wait_def)

text \<open>
  C2. However many times \<open>Stop()\<close> is entered, by whatever goroutines and in whatever
  interleaving, the function given to \<open>stopOnce.Do\<close> runs once: \<open>lg.cancel()\<close> and
  \<open>context.WithTimeout\<close> are called at most once and each service is stopped at most as
  often as it stands in the one snapshot; when \<open>Stop()\<close> has been entered at least once
  and no goroutine is inside it any more, they have been called exactly once. A
  goroutine that reaches the once after the first either waits (the first is still
  inside) or returns from \<open>Stop()\<close> at once, changing nothing but itself.
\<close>

theorem stop_body_runs_once:
  assumes "run (New d) es = Some w"
  shows "count_list (calls w) CtxCancel \<le> 1
       \<and> cnt is_WithTimeout (calls w) \<le> 1
       \<and> (\<forall>x. count_list (calls w) (SvcStop x) \<le> count_list (servicesToStop w) x)
       \<and> ((\<exists>e \<in> set es. invokes_Stop e) \<and> (\<forall>p \<in> set (tasks w). \<not> inside_Stop p) \<longrightarrow>
            stopOnce w = Finished \<and> count_list (calls w) CtxCancel = 1
            \<and> cnt is_WithTimeout (calls w) = 1
            \<and> (\<forall>x. count_list (calls w) (SvcStop x) = count_list (servicesToStop w) x))
       \<and> (\<forall>t c. stopOnce w \<noteq> NotRun \<and> t < length (tasks w) \<and> tasks w ! t = OnceDo c \<longrightarrow>
            step w (Run t) = (if stopOnce w = Finished then Some (Stop_returns c t w) else None))"
proof -
  have i: "inv w" using assms by (rule inv_reachable)
  then have a: "count_list (calls w) CtxCancel \<le> 1" "cnt is_WithTimeout (calls w) \<le> 1"
    by (simp_all add: inv_def calls_inv_def)
  have b: "\<forall>x. count_list (calls w) (SvcStop x) \<le> count_list (servicesToStop w) x"
    using inv_stop_calls_le(1) [OF i] by blast
  have c: "stopOnce w = Finished \<and> count_list (calls w) CtxCancel = 1
            \<and> cnt is_WithTimeout (calls w) = 1
            \<and> (\<forall>x. count_list (calls w) (SvcStop x) = count_list (servicesToStop w) x)"
    if k: "\<exists>e \<in> set es. invokes_Stop e" and n: "\<forall>p \<in> set (tasks w). \<not> inside_Stop p"
  proof -
    have "stop_invoked w" using assms inv_New k by (intro stop_invoked_run) blast+
    with n have "stopOnce w \<noteq> NotRun" by (auto simp: stop_invoked_def)
    moreover have "stopOnce w \<noteq> Running" using i n by (rule no_body_not_Running)
    ultimately have f: "stopOnce w = Finished" by (cases "stopOnce w") simp_all
    with inv_Finished [OF i f] show ?thesis by simp
  qed
  have e: "step w (Run t) = (if stopOnce w = Finished then Some (Stop_returns c t w) else None)"
    if "stopOnce w \<noteq> NotRun" "t < length (tasks w)" "tasks w ! t = OnceDo c" for t c
    using that by (cases "stopOnce w") simp_all
  from a b c e show ?thesis by blast
qed

theorem stop_body_runs_once_witness:
  "map_option (\<lambda>w. (stopOnce w, count_list (calls w) CtxCancel, cnt is_WithTimeout (calls w),
                    count_list (calls w) (SvcStop 0)))
     (run (New 5) three_stops) = Some (Finished, 1, 1, 1)"
proof -
  obtain w where r: "run (New 5) three_stops = Some w"
    and t: "tasks w = [Done, Done, Done, Done, Done]" and s: "servicesToStop w = [0]"
    by (simp add: three_stops_def exec_defs)
  have "\<exists>e \<in> set three_stops. invokes_Stop e" by (simp add: three_stops_def)
  moreover have "\<forall>p \<in> set (tasks w). \<not> inside_Stop p" by (simp add: t)
  ultimately show ?thesis using stop_body_runs_once [OF r] r s by simp
qed




text \<open>
  C4 (as amended). A start body that returns an error sends its closure into \<open>Stop()\<close>
  and changes nothing else: the error is not recorded. When the stop sequence has
  finished, the calls of \<open>Stop\<close> made are those of the services in its snapshot of
  \<open>startedServices\<close>, one for each occurrence, and every service whose \<open>Start\<close> was called
  before \<open>lg.cancel()\<close> is among them.
\<close>

theorem failed_start_stops_started:
  assumes "run (New d) es = Some w"
  shows "(step w (StartReturns t (Some err)) = Some w' \<longrightarrow>
            w' = w\<lparr>tasks := (tasks w)[t := OnceDo Task]\<rparr> \<and> tasks w' ! t = OnceDo Task)
       \<and> (stopOnce w = Finished \<longrightarrow>
            count_list (calls w) (SvcStop x) = count_list (servicesToStop w) x
            \<and> started_before_cancel (calls w) x \<le> count_list (calls w) (SvcStop x))"
proof -
  have i: "inv w" using assms by (rule inv_reachable)
  have "w' = w\<lparr>tasks := (tasks w)[t := OnceDo Task]\<rparr> \<and> tasks w' ! t = OnceDo Task"
    if "step w (StartReturns t (Some err)) = Some w'"
    using that by (auto split: if_splits pc.splits)
  moreover have "count_list (calls w) (SvcStop x) = count_list (servicesToStop w) x
            \<and> started_before_cancel (calls w) x \<le> count_list (calls w) (SvcStop x)"
    if f: "stopOnce w = Finished"
    using inv_Finished(5,6) [OF i f, of x] by simp
  ultimately show ?thesis by blast
qed

theorem failed_start_stops_started_witness:
  "map_option (\<lambda>w. (stopOnce w, started_before_cancel (calls w) 0, count_list (calls w) (SvcStop 0)))
     (run (New 5) (one_service_fails ''boom'')) = Some (Finished, 1, 1)
   \<and> map_option tasks (run (New 5) [CallAdd 0, CallStart, Run 1, Run 1, StartReturns 1 (Some ''boom'')])
     = Some [HandleSignals, OnceDo Task]"
proof -
  obtain w where r: "run (New 5) (one_service_fails ''boom'') = Some w"
    and f: "stopOnce w = Finished" and c: "calls w = [SvcStart 0, CtxCancel, WithTimeout 5, SvcStop 0]"
    by (simp add: one_service_fails_def exec_defs)
  obtain v where q: "run (New 5) [CallAdd 0, CallStart, Run 1, Run 1] = Some v"
    and tv: "tasks v = [HandleSignals, InStart 0]"
    by (simp add: exec_defs)
  obtain v' where s: "step v (StartReturns 1 (Some ''boom'')) = Some v'"
    using tv by simp
  from failed_start_stops_started [OF q, of 1 "''boom''" v'] s
  have "v' = v\<lparr>tasks := (tasks v)[1 := OnceDo Task]\<rparr>" by blast
  with tv have tv': "tasks v' = [HandleSignals, OnceDo Task]" by simp
  have "run (New 5) ([CallAdd 0, CallStart, Run 1, Run 1] @ [StartReturns 1 (Some ''boom'')]) = Some v'"
    using q by (rule run_append_Some) (simp only: run.simps s option.case)
  with tv' have "map_option tasks
      (run (New 5) [CallAdd 0, CallStart, Run 1, Run 1, StartReturns 1 (Some ''boom'')])
     = Some [HandleSignals, OnceDo Task]"
    by simp
  moreover from failed_start_stops_started [OF r, of _ _ _ 0] f
  have "started_before_cancel (calls w) 0 \<le> count_list (calls w) (SvcStop 0)" by blast
  ultimately show ?thesis using r f c by (simp add: started_before_cancel_def)
qed

text \<open>
  C4 as stated fails twice. The failure is not recorded: the run in which the service
  fails leads to the same world whatever the error. And a started service can miss its
  stop call: in \<open>late_starter\<close> service 1 has been started and is running when service 2
  fails, the stop sequence has already finished (it stopped service 0 only), and no call
  of \<open>Stop\<close> on service 1 is made.
\<close>

theorem failure_not_recorded_counterexample:
  "run (New 5) (one_service_fails ''first'') = run (New 5) (one_service_fails ''second'')
   \<and> map_option (\<lambda>w. (stopOnce w, tasks w, calls w)) (run (New 5) late_starter)
     = Some (Finished, [HandleSignals, Done, InStart 1, Done, Done],
             [SvcStart 0, CtxCancel, WithTimeout 5, SvcStop 0, SvcStart 1, SvcStart 2])"
  by (simp add: one_service_fails_def late_starter_def exec_defs)

text \<open>
  C5 (as amended). After \<open>Start\<close>, as long as nothing enters \<open>Stop()\<close> (no start body
  returns an error, no signal arrives, nobody calls \<open>Stop()\<close>), \<open>handleSignals\<close> stays
  in its \<open>select\<close>, \<open>lg.ctx\<close> is not cancelled and \<open>Wait\<close> does not return, whatever the
  services do. \<open>Wait\<close> returns only in a run in which \<open>Stop()\<close> was entered, when every
  goroutine of the group has returned.
\<close>

theorem Wait_needs_cancel_or_signal:
  assumes "run (New d) es = Some w" and "CallStart \<in> set es"
  shows "((\<forall>e \<in> set es. \<not> invokes_Stop e) \<longrightarrow>
            HandleSignals \<in> set (tasks w) \<and> \<not> ctxDone w \<and> Wait w = None)
       \<and> (Wait w = Some () \<longrightarrow> (\<exists>e \<in> set es. invokes_Stop e) \<and> (\<forall>p \<in> set (tasks w). \<not> in_wg p))"
proof -
  have i: "inv w" using assms(1) by (rule inv_reachable)
  have a: "HandleSignals \<in> set (tasks w) \<and> \<not> ctxDone w \<and> Wait w = None"
    if "\<forall>e \<in> set es. \<not> invokes_Stop e"
    using listener_blocks(1,3,4) [OF assms that] by simp
  then have "\<exists>e \<in> set es. invokes_Stop e" if "Wait w = Some ()"
    using that by auto
  moreover have "\<forall>p \<in> set (tasks w). \<not> in_wg p" if "Wait w = Some ()"
    using that Wait_iff [OF i] by simp
  ultimately show ?thesis using a by blast
qed

theorem Wait_needs_cancel_or_signal_witness:
  "map_option (\<lambda>w. (tasks w, ctxDone w, Wait w)) (run (New 5) natural_completion)
   = Some ([HandleSignals, Done], False, None)"
proof -
  obtain w where r: "run (New 5) natural_completion = Some w" and t: "tasks w = [HandleSignals, Done]"
    by (simp add: natural_completion_def exec_defs)
  have "CallStart \<in> set natural_completion" "\<forall>e \<in> set natural_completion. \<not> invokes_Stop e"
    by (simp_all add: natural_completion_def)
  with Wait_needs_cancel_or_signal [OF r] r t show ?thesis by simp
qed

text \<open>
  C5 as stated fails: the only service starts and its start body returns \<open>nil\<close>; after
  that, in no continuation in which nothing enters \<open>Stop()\<close> does \<open>Wait\<close> return.
\<close>

theorem natural_completion_counterexample:
  "\<not> (\<exists>es w. (\<forall>e \<in> set es. \<not> invokes_Stop e)
        \<and> run (New 5) (natural_completion @ es) = Some w \<and> Wait w = Some ())"
proof
  assume "\<exists>es w. (\<forall>e \<in> set es. \<not> invokes_Stop e)
        \<and> run (New 5) (natural_completion @ es) = Some w \<and> Wait w = Some ()"
  then obtain es w where es: "\<forall>e \<in> set es. \<not> invokes_Stop e"
    and r: "run (New 5) (natural_completion @ es) = Some w" and k: "Wait w = Some ()"
    by blast
  have "CallStart \<in> set (natural_completion @ es)" by (simp add: natural_completion_def)
  moreover have "\<forall>e \<in> set (natural_completion @ es). \<not> invokes_Stop e"
    using es by (simp add: natural_completion_def)
  ultimately have "Wait w = None" using r by (intro listener_blocks(4))
  with k show False by simp
qed

text \<open>
  C6. \<open>Start\<close> returns \<open>nil\<close> in every world, and it is enabled in every world (it never
  blocks): it calls no service body itself (the history of calls is unchanged) and leaves
  behind the listener and one start closure for each registered service, launched and
  not yet run.
\<close>

theorem Start_returns_nil:
  "snd (Start w) = None
   \<and> step w CallStart = Some (fst (Start w))
   \<and> calls (fst (Start w)) = calls w
   \<and> tasks (fst (Start w)) = tasks w @ HandleSignals # map StartTrack (services w)"
  by (simp add: Start_def)

theorem Start_returns_nil_witness:
  "snd (Start (Add 7 (New 5))) = None
   \<and> tasks (fst (Start (Add 7 (New 5)))) = [HandleSignals, StartTrack 7]"
  using Start_returns_nil [of "Add 7 (New 5)"] by (simp add: New_def Add_def)



text \<open>
  C8. The outcome of a service's \<open>Stop\<close> is discarded: replacing every outcome of every
  stop body by \<open>nil\<close> changes nothing in the world a schedule leads to, so neither the
  stop calls made on the other services, nor what \<open>Stop()\<close> and \<open>Wait()\<close> do, depend on it.
\<close>

theorem stop_outcome_discarded:
  "run w (map forget_stop_outcome es) = run w es"
  by (induction es arbitrary: w) (simp_all add: step_forget_stop split: option.splits)

theorem stop_outcome_discarded_witness:
  "run (New 5) [CallAdd 0, CallStart, Run 1, Run 1, CallStop, Run 2, Run 2, Run 2, Run 2,
                Run 2, Run 3, StopReturns 3 None, Run 2]
   = run (New 5) [CallAdd 0, CallStart, Run 1, Run 1, CallStop, Run 2, Run 2, Run 2, Run 2,
                  Run 2, Run 3, StopReturns 3 (Some ''stop error''), Run 2]"
  using stop_outcome_discarded
    [of "New 5" "[CallAdd 0, CallStart, Run 1, Run 1, CallStop, Run 2, Run 2, Run 2, Run 2,
                  Run 2, Run 3, StopReturns 3 (Some ''stop error''), Run 2]"]
  by simp

text \<open>
  C9. On a new group, with any services registered, a \<open>Stop()\<close> from outside runs to
  its end before any \<open>Start\<close>: \<open>lg.ctx\<close> is cancelled, \<open>startedServices\<close> is empty and no
  \<open>Stop\<close> of a service is called, nothing panics. Whatever happens afterwards (a \<open>Start\<close>
  included), \<open>lg.ctx\<close> stays cancelled, so every start closure passes its service a
  cancelled context; nothing panics and no service is ever stopped.
\<close>

theorem Stop_before_Start:
  "\<exists>w. run (New d) (map CallAdd svcs @ [CallStop, Run 0, Run 0, Run 0, Run 0, Run 0, Run 0]) = Some w
      \<and> ctxDone w \<and> stopOnce w = Finished \<and> calls w = [CtxCancel, WithTimeout d]
      \<and> tasks w = [Done] \<and> \<not> panicked w \<and> services w = svcs \<and> startedServices w = []
      \<and> (\<forall>es w'. run w es = Some w' \<longrightarrow>
            ctxDone w' \<and> \<not> panicked w' \<and> (\<forall>x. SvcStop x \<notin> set (calls w')))"
proof -
  let ?es = "map CallAdd svcs @ [CallStop, Run 0, Run 0, Run 0, Run 0, Run 0, Run 0]"
  obtain w where r: "run (New d) ?es = Some w"
    and f: "ctxDone w" "stopOnce w = Finished" "calls w = [CtxCancel, WithTimeout d]"
      "tasks w = [Done]" "\<not> panicked w" "services w = svcs" "startedServices w = []"
      "servicesToStop w = []"
    by (simp add: run_Adds exec_defs)
  have i: "inv w" using r by (rule inv_reachable)
  have "ctxDone w' \<and> \<not> panicked w' \<and> (\<forall>x. SvcStop x \<notin> set (calls w'))"
    if r': "run w es = Some w'" for es w'
  proof -
    have i': "inv w'" using r' i by (rule inv_run)
    from finished_run [OF r' i f(2)] f(8)
    have f': "stopOnce w' = Finished" and s': "servicesToStop w' = []" by simp_all
    have "count_list (calls w') (SvcStop x) = 0" for x
      using inv_Finished(5) [OF i' f', of x] s' by simp
    then have "\<forall>x. SvcStop x \<notin> set (calls w')" by (simp add: count_list_0_iff)
    moreover have "ctxDone w'" using r' i f(1) by (rule ctxDone_run)
    moreover have "\<not> panicked w'" using i' by (simp add: inv_def counters_inv_def)
    ultimately show ?thesis by blast
  qed
  with r f show ?thesis by blast
qed

theorem Stop_before_Start_witness:
  "map_option (\<lambda>w. (ctxDone w, calls w, tasks w))
     (run (New 5) [CallAdd 0, CallAdd 1, CallStop, Run 0, Run 0, Run 0, Run 0, Run 0, Run 0,
                   CallStart, Run 2, Run 2])
   = Some (True, [CtxCancel, WithTimeout 5, SvcStart 0],
           [Done, HandleSignals, InStart 0, StartTrack 1])"
proof -
  let ?a = "map CallAdd [0, 1] @ [CallStop, Run 0, Run 0, Run 0, Run 0, Run 0, Run 0]"
  from Stop_before_Start [of 5 "[0, 1]"] obtain w
    where r: "run (New 5) ?a = Some w"
      and c: "calls w = [CtxCancel, WithTimeout 5]" and t: "tasks w = [Done]"
      and s: "services w = [0, 1]"
      and k: "\<forall>es w'. run w es = Some w' \<longrightarrow> ctxDone w' \<and> \<not> panicked w' \<and> (\<forall>x. SvcStop x \<notin> set (calls w'))"
    by blast
  obtain w' where r': "run w [CallStart, Run 2, Run 2] = Some w'"
    and c': "calls w' = [CtxCancel, WithTimeout 5, SvcStart 0]"
    and t': "tasks w' = [Done, HandleSignals, InStart 0, StartTrack 1]"
    using c t s by (simp add: exec_defs)
  from k r' have d: "ctxDone w'" by blast
  have "run (New 5) (?a @ [CallStart, Run 2, Run 2]) = Some w'"
    using r r' by (rule run_append_Some)
  moreover have "?a @ [CallStart, Run 2, Run 2]
      = [CallAdd 0, CallAdd 1, CallStop, Run 0, Run 0, Run 0, Run 0, Run 0, Run 0,
         CallStart, Run 2, Run 2]"
    by simp
  ultimately show ?thesis using d c' t' by simp
qed

text \<open>
  C10. Only \<open>Add\<close> changes the registry: after any schedule the registry is the initial
  one followed by the services registered by the schedule's \<open>Add\<close> calls, in order;
  \<open>Start\<close> leaves it as it is and \<open>Add\<close> appends one service at the end. (\<open>Wait\<close> only
  reads the counter of the wait group.)
\<close>

theorem registry_only_Add:
  "(run w es = Some w' \<longrightarrow> services w' = services w @ registered es)
   \<and> services (fst (Start w)) = services w
   \<and> services (Add svc w) = services w @ [svc]"
  using run_services by (simp add: Start_def Add_def)

theorem registry_only_Add_witness:
  "map_option services (run (New 5) [CallAdd 3, CallStart, Run 1, CallStop, Run 2, CallAdd 4])
   = Some [3, 4]"
proof -
  obtain w' where r: "run (New 5) [CallAdd 3, CallStart, Run 1, CallStop, Run 2, CallAdd 4] = Some w'"
    by (simp add: New_def Add_def Start_def)
  from r registry_only_Add [of "New 5" "[CallAdd 3, CallStart, Run 1, CallStop, Run 2, CallAdd 4]" w' 0]
  show ?thesis by (simp add: registered_def New_def)
qed

end
